theory Spec2Isabelle
  imports Complex_Main
begin

section \<open>Python containers\<close>

text \<open>
  A Python \<open>dict\<close> keeps its keys in insertion order, so it is an association list with
  distinct keys. Assigning to a present key replaces its value in place; assigning to an
  absent key appends the pair.
\<close>

type_synonym ('k, 'v) dict = "('k \<times> 'v) list"

definition dict_contains :: "('k, 'v) dict \<Rightarrow> 'k \<Rightarrow> bool" where
  \<comment> \<open>\<open>k in d\<close>\<close>
  "dict_contains d k = (map_of d k \<noteq> None)"

definition dict_get :: "('k, 'v) dict \<Rightarrow> 'k \<Rightarrow> 'v \<Rightarrow> 'v" where
  \<comment> \<open>\<open>d.get(k, default)\<close>: never inserts, also on a \<open>defaultdict\<close>\<close>
  "dict_get d k dflt = (case map_of d k of None \<Rightarrow> dflt | Some v \<Rightarrow> v)"

fun dict_setitem :: "('k, 'v) dict \<Rightarrow> 'k \<Rightarrow> 'v \<Rightarrow> ('k, 'v) dict" where
  \<comment> \<open>\<open>d[k] = v\<close>\<close>
  "dict_setitem [] k v = [(k, v)]"
| "dict_setitem ((k', v') # d) k v =
     (if k' = k then (k, v) # d else (k', v') # dict_setitem d k v)"

datatype py_error = KeyError int

definition dict_getitem :: "(int, 'v) dict \<Rightarrow> int \<Rightarrow> py_error + 'v" where
  \<comment> \<open>\<open>d[k]\<close> on a plain \<open>dict\<close>: raises \<open>KeyError\<close> on an absent key\<close>
  "dict_getitem d k = (case map_of d k of None \<Rightarrow> Inl (KeyError k) | Some v \<Rightarrow> Inr v)"

definition defaultdict_getitem :: "('k, 'v) dict \<Rightarrow> 'k \<Rightarrow> 'v \<Rightarrow> 'v \<times> ('k, 'v) dict" where
  \<comment> \<open>\<open>d[k]\<close> on a \<open>defaultdict\<close>: an absent key is inserted with the default value\<close>
  "defaultdict_getitem d k dflt =
     (case map_of d k of None \<Rightarrow> (dflt, d @ [(k, dflt)]) | Some v \<Rightarrow> (v, d))"

definition slice_to :: "'a list \<Rightarrow> int \<Rightarrow> 'a list" where
  \<comment> \<open>\<open>xs[:k]\<close>: a negative \<open>k\<close> counts from the end of the list\<close>
  "slice_to xs k =
     (if k < 0 then take (nat (int (length xs) + k)) xs else take (nat k) xs)"

definition round_half_even :: "real \<Rightarrow> int" where
  "round_half_even x =
     (let f = \<lfloor>x\<rfloor>; r = x - of_int f
      in if r < 1 / 2 then f
         else if 1 / 2 < r then f + 1
         else if even f then f else f + 1)"

definition py_round :: "real \<Rightarrow> nat \<Rightarrow> real" where
  \<comment> \<open>\<open>round(x, ndigits)\<close>, on the reals that stand for Python's floats: the exact real
      is rounded half to even, where Python rounds the double nearest to it, so the two
      can differ on a value that is a decimal tie; both are monotone and keep the sign\<close>
  "py_round x ndigits = of_int (round_half_even (x * 10 ^ ndigits)) / 10 ^ ndigits"

section \<open>The data model of \<open>search_engine.py\<close>\<close>

text \<open>
  Strings are lists of 8-bit characters read as code points. Document ids and \<open>top_k\<close>
  are Python integers; lengths, positions and counters, which the code only builds with
  \<open>len\<close>, \<open>enumerate\<close> and \<open>+= 1\<close> from zero, are natural numbers. Floats are
  modelled by the reals and \<open>math.log\<close> by \<open>ln\<close>.
\<close>

record document =
  id' :: int
  title :: string
  content :: string

type_synonym posting = "int \<times> nat list"

record engine =
  inverted_index :: "(string, posting list) dict"
  documents :: "(int, document) dict"
  doc_word_counts :: "(int, nat) dict"
  word_doc_frequency :: "(string, nat) dict"
  next_doc_id :: int

record search_result = document +
  snippet :: string
  score :: real

record stats =
  total_documents :: nat
  total_words_indexed :: nat
  unique_words :: nat
  average_words_per_document :: real

definition init :: engine where
  \<comment> \<open>\<open>SearchEngine.__init__\<close>\<close>
  "init = \<lparr>inverted_index = [], documents = [], doc_word_counts = [],
            word_doc_frequency = [], next_doc_id = 1\<rparr>"

section \<open>Tokenizer\<close>

definition is_space :: "char \<Rightarrow> bool" where
  \<comment> \<open>the characters below 256 that \<open>\s\<close> and \<open>str.split()\<close> treat as whitespace\<close>
  "is_space c = ((of_char c :: nat) \<in> {9, 10, 11, 12, 13, 28, 29, 30, 31, 32, 133, 160})"

definition is_lower_alnum :: "char \<Rightarrow> bool" where
  \<comment> \<open>the class \<open>[a-z0-9]\<close>\<close>
  "is_lower_alnum c =
     (let n = (of_char c :: nat) in (97 \<le> n \<and> n \<le> 122) \<or> (48 \<le> n \<and> n \<le> 57))"

definition lower_char :: "char \<Rightarrow> char" where
  "lower_char c =
     (let n = (of_char c :: nat) in if 65 \<le> n \<and> n \<le> 90 then char_of (n + 32) else c)"

definition lower :: "string \<Rightarrow> string" where
  \<comment> \<open>\<open>text.lower()\<close>; a character above 127 is left alone, the substitution below
      turns it into a space (or keeps it as whitespace) whatever its case\<close>
  "lower text = map lower_char text"

definition re_sub :: "string \<Rightarrow> string" where
  \<comment> \<open>\<open>re.sub(r'[^a-z0-9\s]', ' ', text)\<close>\<close>
  "re_sub text = map (\<lambda>c. if is_lower_alnum c \<or> is_space c then c else CHR '' '') text"

fun split_ws :: "string \<Rightarrow> string \<Rightarrow> string list" where
  \<comment> \<open>the first argument is the word being read, reversed\<close>
  "split_ws cur [] = (if cur = [] then [] else [rev cur])"
| "split_ws cur (c # cs) =
     (if is_space c then (if cur = [] then split_ws [] cs else rev cur # split_ws [] cs)
      else split_ws (c # cur) cs)"

definition str_split :: "string \<Rightarrow> string list" where
  \<comment> \<open>\<open>text.split()\<close>\<close>
  "str_split text = split_ws [] text"

definition tokenize :: "string \<Rightarrow> string list" where
  "tokenize text = filter (\<lambda>word. word \<noteq> []) (str_split (re_sub (lower text)))"

section \<open>Scoring\<close>

fun find_word_count :: "posting list \<Rightarrow> int \<Rightarrow> nat" where
  \<comment> \<open>the scan of \<open>_calculate_tf\<close>: the first posting of the document decides\<close>
  "find_word_count [] doc_id = 0"
| "find_word_count ((doc_id_in_index, positions) # entries) doc_id =
     (if doc_id_in_index = doc_id then length positions
      else find_word_count entries doc_id)"

definition calculate_tf :: "engine \<Rightarrow> string \<Rightarrow> int \<Rightarrow> real \<times> engine" where
  "calculate_tf s word doc_id =
     (let (word_count, s1) =
            (if dict_contains (inverted_index s) word
             then (let (entries, idx) = defaultdict_getitem (inverted_index s) word []
                   in (find_word_count entries doc_id, s\<lparr>inverted_index := idx\<rparr>))
             else (0, s));
          total_words = dict_get (doc_word_counts s1) doc_id 1
      in (if total_words > 0 then real word_count / real total_words else 0, s1))"

definition calculate_idf :: "engine \<Rightarrow> string \<Rightarrow> real" where
  "calculate_idf s word =
     (let total_docs = length (documents s)
      in if total_docs = 0 then 0
         else (let docs_with_word = dict_get (word_doc_frequency s) word 0
               in if docs_with_word = 0 then 0
                  else ln (real total_docs / real docs_with_word)))"

definition calculate_tfidf :: "engine \<Rightarrow> string \<Rightarrow> int \<Rightarrow> real \<times> engine" where
  "calculate_tfidf s word doc_id =
     (let (tf, s1) = calculate_tf s word doc_id;
          idf = calculate_idf s1 word
      in (tf * idf, s1))"

section \<open>Indexing\<close>

fun append_position :: "posting list \<Rightarrow> int \<Rightarrow> nat \<Rightarrow> posting list" where
  \<comment> \<open>the scan for the document's posting, extended in place when found (\<open>break\<close>),
      and the new posting appended when the scan ends without finding one\<close>
  "append_position [] doc_id position = [(doc_id, [position])]"
| "append_position ((existing_doc_id, positions) # entries) doc_id position =
     (if existing_doc_id = doc_id then (existing_doc_id, positions @ [position]) # entries
      else (existing_doc_id, positions) # append_position entries doc_id position)"

definition index_word :: "int \<Rightarrow> nat \<Rightarrow> string \<Rightarrow> string set \<times> engine \<Rightarrow> string set \<times> engine" where
  \<comment> \<open>one round of the loop over \<open>enumerate(words)\<close> in \<open>add_document\<close>\<close>
  "index_word doc_id position word st =
     (let (unique_words_in_doc, s) = st;
          (unique1, s1) =
            (if word \<notin> unique_words_in_doc
             then (let (n, freq) = defaultdict_getitem (word_doc_frequency s) word 0
                   in (insert word unique_words_in_doc,
                       s\<lparr>word_doc_frequency := dict_setitem freq word (n + 1)\<rparr>))
             else (unique_words_in_doc, s));
          (entries, idx) = defaultdict_getitem (inverted_index s1) word []
      in (unique1,
          s1\<lparr>inverted_index := dict_setitem idx word (append_position entries doc_id position)\<rparr>))"

fun index_words :: "int \<Rightarrow> (nat \<times> string) list \<Rightarrow> string set \<times> engine \<Rightarrow> string set \<times> engine" where
  "index_words doc_id [] st = st"
| "index_words doc_id ((position, word) # rest) st =
     index_words doc_id rest (index_word doc_id position word st)"

definition add_document :: "engine \<Rightarrow> string \<Rightarrow> string \<Rightarrow> int \<times> engine" where
  "add_document s ttl cnt =
     (let doc_id = next_doc_id s;
          s1 = s\<lparr>next_doc_id := next_doc_id s + 1\<rparr>;
          doc = \<lparr>id' = doc_id, title = ttl, content = cnt\<rparr>;
          s2 = s1\<lparr>documents := dict_setitem (documents s1) doc_id doc\<rparr>;
          words = tokenize cnt;
          s3 = s2\<lparr>doc_word_counts := dict_setitem (doc_word_counts s2) doc_id (length words)\<rparr>
      in (doc_id, snd (index_words doc_id (enumerate 0 words) ({}, s3))))"

fun load_documents :: "engine \<Rightarrow> (string \<times> string) list \<Rightarrow> engine" where
  \<comment> \<open>a sequence of \<open>add_document\<close> calls, as the start-up loop of \<open>main.py\<close> makes\<close>
  "load_documents s [] = s"
| "load_documents s ((ttl, cnt) # docs) = load_documents (snd (add_document s ttl cnt)) docs"

section \<open>Searching\<close>

text \<open>
  \<open>candidate_docs\<close> is a Python \<open>set\<close>; the model keeps it as a list without
  duplicates in the order of first insertion. The order in which CPython iterates over
  the set is not modelled: it only decides the relative order of candidates with equal
  scores, and with it which of them the slice keeps. The searches evaluated below have
  candidates with different scores.
\<close>

definition set_add :: "int list \<Rightarrow> int \<Rightarrow> int list" where
  "set_add cs d = (if d \<in> set cs then cs else cs @ [d])"

fun find_candidates :: "engine \<Rightarrow> string list \<Rightarrow> int list \<Rightarrow> int list \<times> engine" where
  "find_candidates s [] candidate_docs = (candidate_docs, s)"
| "find_candidates s (word # query_words) candidate_docs =
     (if dict_contains (inverted_index s) word
      then (let (entries, idx) = defaultdict_getitem (inverted_index s) word []
            in find_candidates (s\<lparr>inverted_index := idx\<rparr>) query_words
                 (foldl set_add candidate_docs (map fst entries)))
      else find_candidates s query_words candidate_docs)"

fun sum_tfidf :: "engine \<Rightarrow> string list \<Rightarrow> int \<Rightarrow> real \<Rightarrow> real \<times> engine" where
  "sum_tfidf s [] doc_id sc = (sc, s)"
| "sum_tfidf s (word # query_words) doc_id sc =
     (let (x, s1) = calculate_tfidf s word doc_id
      in sum_tfidf s1 query_words doc_id (sc + x))"

fun score_candidates ::
  "engine \<Rightarrow> string list \<Rightarrow> int list \<Rightarrow> (int, real) dict \<Rightarrow> (int, real) dict \<times> engine" where
  "score_candidates s query_words [] doc_scores = (doc_scores, s)"
| "score_candidates s query_words (doc_id # candidate_docs) doc_scores =
     (let (sc, s1) = sum_tfidf s query_words doc_id 0
      in score_candidates s1 query_words candidate_docs (dict_setitem doc_scores doc_id sc))"

definition sorted_reverse :: "(int \<times> real) list \<Rightarrow> (int \<times> real) list" where
  \<comment> \<open>\<open>sorted(items, key=lambda x: x[1], reverse=True)\<close>: stable, items of equal score
      keep their order\<close>
  "sorted_reverse items = sort_key (\<lambda>x. - snd x) items"

definition make_snippet :: "string \<Rightarrow> string" where
  "make_snippet cnt = (if length cnt > 200 then take 200 cnt @ ''...'' else cnt)"

fun build_results :: "engine \<Rightarrow> (int \<times> real) list \<Rightarrow> py_error + search_result list" where
  "build_results s [] = Inr []"
| "build_results s ((doc_id, sc) # top_docs) =
     (case dict_getitem (documents s) doc_id of
        Inl e \<Rightarrow> Inl e
      | Inr doc \<Rightarrow>
          (case build_results s top_docs of
             Inl e \<Rightarrow> Inl e
           | Inr results \<Rightarrow>
               Inr (\<lparr>id' = doc_id, title = title doc, content = content doc,
                     snippet = make_snippet (content doc), score = py_round sc 4\<rparr> # results)))"

definition search :: "engine \<Rightarrow> string \<Rightarrow> int \<Rightarrow> (py_error + search_result list) \<times> engine" where
  "search s query top_k =
     (let query_words = tokenize query
      in if query_words = [] then (Inr [], s)
         else (let (candidate_docs, s1) = find_candidates s query_words []
               in if candidate_docs = [] then (Inr [], s1)
                  else (let (doc_scores, s2) = score_candidates s1 query_words candidate_docs [];
                            sorted_docs = sorted_reverse doc_scores;
                            top_docs = slice_to sorted_docs top_k
                        in (build_results s2 top_docs, s2))))"

section \<open>Statistics and listing\<close>

definition get_stats :: "engine \<Rightarrow> stats \<times> engine" where
  "get_stats s =
     (let total_words = sum_list (map snd (doc_word_counts s));
          unique = length (inverted_index s)
      in (\<lparr>total_documents = length (documents s),
           total_words_indexed = total_words,
           unique_words = unique,
           average_words_per_document =
             (if documents s \<noteq> []
              then py_round (real total_words / real (length (documents s))) 2 else 0)\<rparr>,
          s))"

definition get_all_documents :: "engine \<Rightarrow> document list \<times> engine" where
  "get_all_documents s =
     (map (\<lambda>doc. \<lparr>id' = id' doc, title = title doc, content = content doc\<rparr>)
          (map snd (documents s)), s)"

section \<open>Notions used in the statements and proofs\<close>

definition is_alnum :: "char \<Rightarrow> bool" where
  \<comment> \<open>an ASCII letter or digit: what an alphanumeric token is made of\<close>
  "is_alnum c =
     (let n = (of_char c :: nat)
      in (48 \<le> n \<and> n \<le> 57) \<or> (65 \<le> n \<and> n \<le> 90) \<or> (97 \<le> n \<and> n \<le> 122))"

definition normalize_char :: "char \<Rightarrow> char" where
  \<comment> \<open>what \<open>lower\<close> followed by \<open>re_sub\<close> does to one character\<close>
  "normalize_char c =
     (if is_lower_alnum (lower_char c) \<or> is_space (lower_char c) then lower_char c
      else CHR '' '')"

definition engine_inv :: "engine \<Rightarrow> bool" where
  \<comment> \<open>what every sequence of \<open>add_document\<close> calls keeps true of the engine\<close>
  "engine_inv s \<longleftrightarrow>
     (\<forall>w. dict_get (word_doc_frequency s) w 0 = length (dict_get (inverted_index s) w [])) \<and>
     (\<forall>w. distinct (map fst (dict_get (inverted_index s) w []))) \<and>
     (\<forall>w d ps. (d, ps) \<in> set (dict_get (inverted_index s) w []) \<longrightarrow>
        (\<exists>doc. map_of (documents s) d = Some doc \<and> w \<in> set (tokenize (content doc))) \<and>
        (\<exists>n. map_of (doc_word_counts s) d = Some n \<and> length ps \<le> n)) \<and>
     (\<forall>d \<in> fst ` set (documents s). d < next_doc_id s)"

section \<open>Facts about the containers\<close>

lemma map_of_dict_setitem: "map_of (dict_setitem d k v) = (map_of d)(k \<mapsto> v)"
  by (induction d k v rule: dict_setitem.induct) auto

lemma dict_setitem_absent: "k \<notin> fst ` set d \<Longrightarrow> dict_setitem d k v = d @ [(k, v)]"
  by (induction d k v rule: dict_setitem.induct) auto

lemma set_dict_setitem: "set (dict_setitem d k v) \<subseteq> insert (k, v) (set d)"
  by (induction d k v rule: dict_setitem.induct) auto

lemma dict_get_absent: "\<not> dict_contains d k \<Longrightarrow> dict_get d k dflt = dflt"
  by (simp add: dict_contains_def dict_get_def)

lemma defaultdict_getitem_present:
  "dict_contains d k \<Longrightarrow> defaultdict_getitem d k dflt = (dict_get d k dflt, d)"
  by (auto simp: dict_contains_def defaultdict_getitem_def dict_get_def)

lemma map_of_defaultdict_getitem:
  "map_of (snd (defaultdict_getitem d k dflt)) =
     (case map_of d k of None \<Rightarrow> (map_of d)(k \<mapsto> dflt) | Some v \<Rightarrow> map_of d)"
  by (auto simp: defaultdict_getitem_def map_of_append fun_eq_iff map_add_def split: option.splits)

lemma fst_defaultdict_getitem: "fst (defaultdict_getitem d k dflt) = dict_get d k dflt"
  by (simp add: defaultdict_getitem_def dict_get_def split: option.splits)

lemma dict_get_subscript_update:
  "dict_get (dict_setitem (snd (defaultdict_getitem d k dflt)) k v) w dflt' =
     (if w = k then v else dict_get d w dflt')"
  by (simp add: dict_get_def map_of_dict_setitem map_of_defaultdict_getitem split: option.splits)

lemma length_slice_to: "0 \<le> k \<Longrightarrow> length (slice_to xs k) \<le> nat k"
  by (simp add: slice_to_def)

lemma set_slice_to: "set (slice_to xs k) \<subseteq> set xs"
  by (auto simp: slice_to_def dest: in_set_takeD)

lemma round_half_even_bounds: "\<lfloor>x\<rfloor> \<le> round_half_even x \<and> round_half_even x \<le> \<lfloor>x\<rfloor> + 1"
  by (simp add: round_half_even_def Let_def)

lemma round_half_even_mono:
  assumes "x \<le> y"
  shows "round_half_even x \<le> round_half_even y"
proof (cases "\<lfloor>x\<rfloor> = \<lfloor>y\<rfloor>")
  case True
  have "x - of_int \<lfloor>y\<rfloor> \<le> y - of_int \<lfloor>y\<rfloor>"
    using assms by simp
  then show ?thesis
    unfolding round_half_even_def Let_def True by auto
next
  case False
  then have "\<lfloor>x\<rfloor> + 1 \<le> \<lfloor>y\<rfloor>"
    using floor_mono [OF assms] by simp
  then show ?thesis
    using round_half_even_bounds [of x] round_half_even_bounds [of y] by linarith
qed

lemma py_round_mono: "x \<le> y \<Longrightarrow> py_round x n \<le> py_round y n"
proof -
  assume "x \<le> y"
  then have "x * 10 ^ n \<le> y * 10 ^ n"
    by simp
  then have "round_half_even (x * 10 ^ n) \<le> round_half_even (y * 10 ^ n)"
    by (rule round_half_even_mono)
  then show ?thesis
    by (simp add: py_round_def divide_right_mono)
qed

lemma py_round_zero: "py_round 0 n = 0"
  by (simp add: py_round_def round_half_even_def)

lemma py_round_nonneg: "0 \<le> x \<Longrightarrow> 0 \<le> py_round x n"
  using py_round_mono [of 0 x n] by (simp add: py_round_zero)

section \<open>Queries leave the engine as it is\<close>

text \<open>
  Every subscript of the \<open>defaultdict\<close> \<open>inverted_index\<close> on the query path is guarded by
  a membership test, so no key is inserted.
\<close>

lemma calculate_tf_state: "snd (calculate_tf s word doc_id) = s"
  by (simp add: calculate_tf_def defaultdict_getitem_present Let_def case_prod_beta)

lemma calculate_tfidf_state: "snd (calculate_tfidf s word doc_id) = s"
  by (simp add: calculate_tfidf_def case_prod_beta calculate_tf_state)

lemma sum_tfidf_state: "snd (sum_tfidf s query_words doc_id sc) = s"
  by (induction query_words arbitrary: sc)
     (simp_all add: case_prod_beta calculate_tfidf_state)

lemma score_candidates_state: "snd (score_candidates s query_words cands doc_scores) = s"
  by (induction cands arbitrary: doc_scores)
     (simp_all add: case_prod_beta sum_tfidf_state)

lemma find_candidates_state: "snd (find_candidates s query_words cands) = s"
  by (induction query_words arbitrary: cands)
     (simp_all add: defaultdict_getitem_present)

lemma search_state: "snd (search s query top_k) = s"
  by (simp add: search_def Let_def case_prod_beta find_candidates_state score_candidates_state)

lemma get_stats_state: "snd (get_stats s) = s"
  by (simp add: get_stats_def Let_def)

text \<open>
  C6. In every engine state, a second \<open>get_stats()\<close> returns what the first returned, and
  a second \<open>search(q, top_k)\<close> with the same arguments returns what the first returned,
  when no \<open>add_document\<close> comes between the two calls: the second call runs on the state
  the first call left.
\<close>

theorem read_operations_idempotent:
  "fst (get_stats (snd (get_stats s))) = fst (get_stats s) \<and>
   fst (search (snd (search s query top_k)) query top_k) = fst (search s query top_k)"
  by (simp only: search_state get_stats_state)

theorem read_operations_idempotent_witness:
  "fst (get_stats (snd (get_stats (load_documents init [(''A'', ''the cat'')])))) =
     fst (get_stats (load_documents init [(''A'', ''the cat'')])) \<and>
   fst (search (snd (search (load_documents init [(''A'', ''the cat'')]) ''cat'' 10)) ''cat'' 10) =
     fst (search (load_documents init [(''A'', ''the cat'')]) ''cat'' 10)"
  by (rule read_operations_idempotent)

section \<open>What the tokenizer returns\<close>

lemma re_sub_lower: "re_sub (lower cnt) = map normalize_char cnt"
  by (simp add: re_sub_def lower_def normalize_char_def)

lemma normalize_space: "is_space c \<Longrightarrow> is_space (normalize_char c)"
  by (auto simp: normalize_char_def is_space_def lower_char_def Let_def)

lemma normalize_alnum:
  "is_alnum c \<Longrightarrow> normalize_char c = lower_char c \<and> \<not> is_space (lower_char c)"
  by (auto simp: normalize_char_def is_alnum_def is_lower_alnum_def is_space_def lower_char_def Let_def)

lemma split_ws_word:
  "\<forall>c \<in> set w. \<not> is_space c \<Longrightarrow> split_ws cur (w @ rest) = split_ws (rev w @ cur) rest"
  by (induction w arbitrary: cur) simp_all

lemma split_ws_spaces:
  "\<forall>c \<in> set sp. is_space c \<Longrightarrow> split_ws [] (sp @ rest) = split_ws [] rest"
  by (induction sp) simp_all

lemma split_ws_token:
  assumes "\<forall>c \<in> set sp. is_space c" and "\<forall>c \<in> set w. \<not> is_space c" and "w \<noteq> []"
    and "rest = [] \<or> is_space (hd rest)"
  shows "split_ws [] (sp @ w @ rest) = w # split_ws [] rest"
proof -
  have "split_ws [] (sp @ w @ rest) = split_ws (rev w) rest"
    using assms(1,2) by (simp add: split_ws_spaces split_ws_word)
  also have "\<dots> = w # split_ws [] rest"
    using assms(3,4) by (cases rest) auto
  finally show ?thesis .
qed

text \<open>
  A content made of the words \<open>ws\<close>, each preceded by its run of whitespace in \<open>seps\<close>
  (only the first run may be empty) and followed at the end by the whitespace \<open>trail\<close>.
\<close>

lemma str_split_words:
  assumes "length seps = length ws"
    and "\<forall>sp \<in> set seps. \<forall>c \<in> set sp. is_space c"
    and "\<forall>sp \<in> set (tl seps). sp \<noteq> []"
    and "\<forall>c \<in> set trail. is_space c"
    and "\<forall>w \<in> set ws. w \<noteq> [] \<and> (\<forall>c \<in> set w. is_alnum c)"
  shows "str_split (re_sub (lower (concat (map2 (@) seps ws) @ trail))) = map lower ws"
  using assms
proof (induction seps ws rule: list_induct2)
  case Nil
  have "\<forall>c \<in> set (map normalize_char trail). is_space c"
    using Nil.prems(3) by (simp add: normalize_space)
  then have "split_ws [] (map normalize_char trail @ []) = split_ws [] []"
    by (rule split_ws_spaces)
  then show ?case
    by (simp add: str_split_def re_sub_lower)
next
  case (Cons sp seps w ws)
  note prems = Cons.prems and hyps = Cons.hyps and step = Cons.IH
  let ?rest = "concat (map2 (@) seps ws) @ trail"
  have sp: "\<forall>c \<in> set (map normalize_char sp). is_space c"
    using prems(1) by (simp add: normalize_space)
  have w_eq: "map normalize_char w = lower w"
    using prems(4) by (simp add: lower_def normalize_alnum)
  have w_ns: "\<forall>c \<in> set (lower w). \<not> is_space c"
    using prems(4) by (simp add: lower_def normalize_alnum)
  have w_ne: "lower w \<noteq> []"
    using prems(4) by (simp add: lower_def)
  have rest: "map normalize_char ?rest = [] \<or> is_space (hd (map normalize_char ?rest))"
  proof (cases seps)
    case Nil
    then have "ws = []"
      using hyps by simp
    with Nil show ?thesis
      using prems(3) by (cases trail) (simp_all add: normalize_space)
  next
    case (Cons sp' seps')
    then obtain w' ws' where ws: "ws = w' # ws'"
      using hyps by (cases ws) simp_all
    have "sp' \<noteq> []" and "\<forall>c \<in> set sp'. is_space c"
      using prems(1,2) Cons by simp_all
    then show ?thesis
      using Cons ws by (cases sp') (simp_all add: normalize_space)
  qed
  have IH: "split_ws [] (map normalize_char ?rest) = map lower ws"
    using step prems
    by (cases seps) (simp_all add: str_split_def re_sub_lower)
  have "split_ws [] (map normalize_char sp @ lower w @ map normalize_char ?rest) =
      lower w # split_ws [] (map normalize_char ?rest)"
    by (rule split_ws_token [OF sp w_ns w_ne rest])
  then show ?case
    using IH by (simp add: str_split_def re_sub_lower w_eq)
qed

lemma tokenize_words:
  assumes "length seps = length ws"
    and "\<forall>sp \<in> set seps. \<forall>c \<in> set sp. is_space c"
    and "\<forall>sp \<in> set (tl seps). sp \<noteq> []"
    and "\<forall>c \<in> set trail. is_space c"
    and "\<forall>w \<in> set ws. w \<noteq> [] \<and> (\<forall>c \<in> set w. is_alnum c)"
  shows "tokenize (concat (map2 (@) seps ws) @ trail) = map lower ws"
proof -
  have "\<forall>w \<in> set (map lower ws). w \<noteq> []"
    using assms(5) by (simp add: lower_def)
  then have "filter (\<lambda>word. word \<noteq> []) (map lower ws) = map lower ws"
    by (simp only: filter_id_conv)
  then show ?thesis
    by (simp only: tokenize_def str_split_words [OF assms])
qed

lemma tokenize_whitespace: "\<forall>c \<in> set cnt. is_space c \<Longrightarrow> tokenize cnt = []"
  using tokenize_words [of "[]" "[]" cnt] by simp

section \<open>What \<open>add_document\<close> does to the index\<close>

lemma map_fst_append_position:
  "map fst (append_position es d p) =
     (if d \<in> fst ` set es then map fst es else map fst es @ [d])"
  by (induction es d p rule: append_position.induct) auto

lemma set_append_position:
  "(d', ps) \<in> set (append_position es d p) \<Longrightarrow>
     (d', ps) \<in> set es \<or>
     (d' = d \<and> (ps = [p] \<or> (\<exists>ps0. (d, ps0) \<in> set es \<and> ps = ps0 @ [p])))"
  by (induction es d p rule: append_position.induct) (auto split: if_splits)

lemma index_word_effect:
  assumes "index_word doc_id p word (U, s) = (U', s')"
  shows "U' = insert word U"
    and "dict_get (word_doc_frequency s') w 0 =
           (if w = word \<and> word \<notin> U then dict_get (word_doc_frequency s) w 0 + 1
            else dict_get (word_doc_frequency s) w 0)"
    and "dict_get (inverted_index s') w [] =
           (if w = word then append_position (dict_get (inverted_index s) word []) doc_id p
            else dict_get (inverted_index s) w [])"
    and "documents s' = documents s"
    and "doc_word_counts s' = doc_word_counts s"
    and "next_doc_id s' = next_doc_id s"
  using assms
  by (auto simp: index_word_def case_prod_beta Let_def dict_get_subscript_update
      fst_defaultdict_getitem split: if_splits)

text \<open>
  The loop over \<open>enumerate(words)\<close>, started where \<open>unique_words_in_doc\<close> holds exactly
  the words that already have a posting of the document: a word not yet seen gets one
  more in its document frequency and one new posting, at the end of its list.
\<close>

lemma index_words_effect:
  "(\<forall>w. (w \<in> U) = (doc_id \<in> fst ` set (dict_get (inverted_index s) w []))) \<Longrightarrow>
   index_words doc_id (enumerate k ws) (U, s) = (U', s') \<Longrightarrow>
   U' = U \<union> set ws \<and>
   (\<forall>w. dict_get (word_doc_frequency s') w 0 =
          dict_get (word_doc_frequency s) w 0 + (if w \<in> set ws \<and> w \<notin> U then 1 else 0)) \<and>
   (\<forall>w. map fst (dict_get (inverted_index s') w []) =
          map fst (dict_get (inverted_index s) w []) @
            (if w \<in> set ws \<and> w \<notin> U then [doc_id] else [])) \<and>
   documents s' = documents s \<and> doc_word_counts s' = doc_word_counts s \<and>
   next_doc_id s' = next_doc_id s"
proof (induction ws arbitrary: k U s)
  case Nil
  then show ?case by simp
next
  case (Cons word ws)
  obtain U1 s1 where step: "index_word doc_id k word (U, s) = (U1, s1)"
    by (cases "index_word doc_id k word (U, s)")
  note eff = index_word_effect [OF step]
  have U1: "U1 = insert word U" by (rule eff(1))
  have P1: "\<And>w. map fst (dict_get (inverted_index s1) w []) =
      map fst (dict_get (inverted_index s) w []) @ (if w = word \<and> word \<notin> U then [doc_id] else [])"
    using Cons.prems(1) by (simp add: eff(3) map_fst_append_position)
  have inv1: "\<forall>w. (w \<in> U1) = (doc_id \<in> fst ` set (dict_get (inverted_index s1) w []))"
  proof
    fix w
    have "set (map fst (dict_get (inverted_index s1) w [])) =
        set (map fst (dict_get (inverted_index s) w [])) \<union>
          (if w = word \<and> word \<notin> U then {doc_id} else {})"
      by (simp only: P1) auto
    then show "(w \<in> U1) = (doc_id \<in> fst ` set (dict_get (inverted_index s1) w []))"
      using Cons.prems(1) U1 by (auto split: if_splits)
  qed
  have rest: "index_words doc_id (enumerate (Suc k) ws) (U1, s1) = (U', s')"
    using Cons.prems(2) step by simp
  note IH = Cons.IH [OF inv1 rest]
  show ?case
  proof (intro conjI allI)
    show "U' = U \<union> set (word # ws)" using IH U1 by auto
  next
    fix w
    show "dict_get (word_doc_frequency s') w 0 =
        dict_get (word_doc_frequency s) w 0 + (if w \<in> set (word # ws) \<and> w \<notin> U then 1 else 0)"
      using IH U1 by (auto simp: eff(2))
  next
    fix w
    show "map fst (dict_get (inverted_index s') w []) =
        map fst (dict_get (inverted_index s) w []) @
          (if w \<in> set (word # ws) \<and> w \<notin> U then [doc_id] else [])"
      using IH U1 by (auto simp: P1)
  next
    show "documents s' = documents s" using IH eff(4) by simp
    show "doc_word_counts s' = doc_word_counts s" using IH eff(5) by simp
    show "next_doc_id s' = next_doc_id s" using IH eff(6) by simp
  qed
qed

text \<open>
  The postings of the other documents stay as they are, and a posting of the document
  being indexed holds no more positions than words were read.
\<close>

lemma index_words_postings:
  "index_words doc_id (enumerate k ws) (U, s) = (U', s') \<Longrightarrow>
   (d, ps) \<in> set (dict_get (inverted_index s') w []) \<Longrightarrow>
   (\<forall>w ps. (doc_id, ps) \<in> set (dict_get (inverted_index s) w []) \<longrightarrow> length ps \<le> k) \<Longrightarrow>
   (if d = doc_id then length ps \<le> k + length ws
    else (d, ps) \<in> set (dict_get (inverted_index s) w []))"
proof (induction ws arbitrary: k U s)
  case Nil
  then show ?case by auto
next
  case (Cons word ws)
  obtain U1 s1 where step: "index_word doc_id k word (U, s) = (U1, s1)"
    by (cases "index_word doc_id k word (U, s)")
  note eff = index_word_effect [OF step]
  have rest: "index_words doc_id (enumerate (Suc k) ws) (U1, s1) = (U', s')"
    using Cons.prems(1) step by simp
  have old: "\<And>w d ps. (d, ps) \<in> set (dict_get (inverted_index s1) w []) \<Longrightarrow>
      (d, ps) \<in> set (dict_get (inverted_index s) w []) \<or>
      (d = doc_id \<and> (ps = [k] \<or>
         (\<exists>ps0. (doc_id, ps0) \<in> set (dict_get (inverted_index s) w []) \<and> ps = ps0 @ [k])))"
    by (auto simp: eff(3) dest: set_append_position split: if_splits)
  have bound1: "\<forall>w ps. (doc_id, ps) \<in> set (dict_get (inverted_index s1) w []) \<longrightarrow> length ps \<le> Suc k"
    using old Cons.prems(3) by fastforce
  have IH: "if d = doc_id then length ps \<le> Suc k + length ws
    else (d, ps) \<in> set (dict_get (inverted_index s1) w [])"
    by (rule Cons.IH [OF rest Cons.prems(2) bound1])
  show ?case
    using IH old [of d ps w] by (auto split: if_splits)
qed

lemma fst_add_document: "fst (add_document s ttl cnt) = next_doc_id s"
  by (simp add: add_document_def Let_def)

lemma add_document_effect:
  assumes fresh: "\<forall>w. next_doc_id s \<notin> fst ` set (dict_get (inverted_index s) w [])"
    and add: "add_document s ttl cnt = (i, s')"
  shows "i = next_doc_id s"
    and "next_doc_id s' = next_doc_id s + 1"
    and "documents s' =
           dict_setitem (documents s) (next_doc_id s) \<lparr>id' = next_doc_id s, title = ttl, content = cnt\<rparr>"
    and "doc_word_counts s' =
           dict_setitem (doc_word_counts s) (next_doc_id s) (length (tokenize cnt))"
    and "dict_get (word_doc_frequency s') w 0 =
           dict_get (word_doc_frequency s) w 0 + (if w \<in> set (tokenize cnt) then 1 else 0)"
    and "map fst (dict_get (inverted_index s') w []) =
           map fst (dict_get (inverted_index s) w []) @
             (if w \<in> set (tokenize cnt) then [next_doc_id s] else [])"
    and "(d, ps) \<in> set (dict_get (inverted_index s') w []) \<Longrightarrow>
           (if d = next_doc_id s then length ps \<le> length (tokenize cnt)
            else (d, ps) \<in> set (dict_get (inverted_index s) w []))"
proof -
  define s3 where "s3 = s\<lparr>next_doc_id := next_doc_id s + 1,
    documents := dict_setitem (documents s) (next_doc_id s)
      \<lparr>id' = next_doc_id s, title = ttl, content = cnt\<rparr>,
    doc_word_counts := dict_setitem (doc_word_counts s) (next_doc_id s) (length (tokenize cnt))\<rparr>"
  define U' where "U' = fst (index_words (next_doc_id s) (enumerate 0 (tokenize cnt)) ({}, s3))"
  have loop: "index_words (next_doc_id s) (enumerate 0 (tokenize cnt)) ({}, s3) = (U', s')"
    using add by (auto simp: add_document_def Let_def s3_def U'_def prod_eq_iff)
  show "i = next_doc_id s"
    using add by (simp add: add_document_def Let_def)
  have idx3: "inverted_index s3 = inverted_index s"
    and freq3: "word_doc_frequency s3 = word_doc_frequency s"
    by (simp_all add: s3_def)
  have inv: "\<forall>w. (w \<in> {}) = (next_doc_id s \<in> fst ` set (dict_get (inverted_index s3) w []))"
    using fresh by (simp add: idx3)
  note eff = index_words_effect [OF inv loop]
  show "next_doc_id s' = next_doc_id s + 1" using eff by (simp add: s3_def)
  show "documents s' =
      dict_setitem (documents s) (next_doc_id s) \<lparr>id' = next_doc_id s, title = ttl, content = cnt\<rparr>"
    using eff by (simp add: s3_def)
  show "doc_word_counts s' = dict_setitem (doc_word_counts s) (next_doc_id s) (length (tokenize cnt))"
    using eff by (simp add: s3_def)
  show "dict_get (word_doc_frequency s') w 0 =
      dict_get (word_doc_frequency s) w 0 + (if w \<in> set (tokenize cnt) then 1 else 0)"
    using eff by (simp add: freq3)
  show "map fst (dict_get (inverted_index s') w []) =
      map fst (dict_get (inverted_index s) w []) @
        (if w \<in> set (tokenize cnt) then [next_doc_id s] else [])"
    using eff by (simp add: idx3)
  have bound: "\<forall>w ps. (next_doc_id s, ps) \<in> set (dict_get (inverted_index s3) w []) \<longrightarrow> length ps \<le> 0"
    using fresh by (force simp: idx3)
  show "if d = next_doc_id s then length ps \<le> length (tokenize cnt)
      else (d, ps) \<in> set (dict_get (inverted_index s) w [])"
    if "(d, ps) \<in> set (dict_get (inverted_index s') w [])"
    using index_words_postings [OF loop that bound] by (auto simp: idx3 split: if_splits)
qed

lemma index_words_doc_word_counts:
  "doc_word_counts (snd (index_words doc_id pws st)) = doc_word_counts (snd st)"
proof (induction pws arbitrary: st)
  case Nil
  show ?case by simp
next
  case (Cons pw pws)
  obtain p w where pw: "pw = (p, w)" by (cases pw)
  obtain U t where st: "st = (U, t)" by (cases st)
  have "doc_word_counts (snd (index_word doc_id p w (U, t))) = doc_word_counts t"
    using index_word_effect(5) [of doc_id p w U t] by (cases "index_word doc_id p w (U, t)") simp
  then show ?case
    by (simp add: pw st Cons.IH)
qed

lemma add_document_length:
  "map_of (doc_word_counts (snd (add_document s ttl cnt))) (fst (add_document s ttl cnt)) =
     Some (length (tokenize cnt))"
  by (simp add: add_document_def Let_def map_of_dict_setitem index_words_doc_word_counts)

lemma add_document_empty:
  assumes "tokenize cnt = []"
  shows "inverted_index (snd (add_document s ttl cnt)) = inverted_index s"
    and "word_doc_frequency (snd (add_document s ttl cnt)) = word_doc_frequency s"
  using assms by (simp_all add: add_document_def Let_def)

text \<open>
  C8. \<open>add_document(title, content)\<close> records as the length of the new document the
  number of tokens of \<open>content\<close>. For a content made of \<open>n\<close> alphanumeric words separated
  by whitespace (with optional whitespace before the first and after the last) that number
  is \<open>n\<close>, the tokens being the words in lower case. For an empty or whitespace-only content
  it is 0 and neither the inverted index nor the document frequencies change.
  \<open>add_document\<close> has no failing branch: it returns an id and an engine for every input.
\<close>

theorem add_document_sets_length:
  "map_of (doc_word_counts (snd (add_document s ttl cnt))) (fst (add_document s ttl cnt)) =
     Some (length (tokenize cnt)) \<and>
   (length seps = length ws \<and>
    (\<forall>sp \<in> set seps. \<forall>c \<in> set sp. is_space c) \<and>
    (\<forall>sp \<in> set (tl seps). sp \<noteq> []) \<and>
    (\<forall>c \<in> set trail. is_space c) \<and>
    (\<forall>w \<in> set ws. w \<noteq> [] \<and> (\<forall>c \<in> set w. is_alnum c)) \<and>
    cnt = concat (map2 (@) seps ws) @ trail \<longrightarrow>
      tokenize cnt = map lower ws \<and>
      map_of (doc_word_counts (snd (add_document s ttl cnt))) (fst (add_document s ttl cnt)) =
        Some (length ws)) \<and>
   ((\<forall>c \<in> set cnt. is_space c) \<longrightarrow>
      map_of (doc_word_counts (snd (add_document s ttl cnt))) (fst (add_document s ttl cnt)) =
        Some 0 \<and>
      inverted_index (snd (add_document s ttl cnt)) = inverted_index s \<and>
      word_doc_frequency (snd (add_document s ttl cnt)) = word_doc_frequency s)"
proof (intro conjI impI)
  show len: "map_of (doc_word_counts (snd (add_document s ttl cnt))) (fst (add_document s ttl cnt)) =
      Some (length (tokenize cnt))"
    by (rule add_document_length)
  {
    assume h: "length seps = length ws \<and>
      (\<forall>sp \<in> set seps. \<forall>c \<in> set sp. is_space c) \<and>
      (\<forall>sp \<in> set (tl seps). sp \<noteq> []) \<and>
      (\<forall>c \<in> set trail. is_space c) \<and>
      (\<forall>w \<in> set ws. w \<noteq> [] \<and> (\<forall>c \<in> set w. is_alnum c)) \<and>
      cnt = concat (map2 (@) seps ws) @ trail"
    then show tok: "tokenize cnt = map lower ws"
      using tokenize_words [of seps ws trail] by simp
    show "map_of (doc_word_counts (snd (add_document s ttl cnt))) (fst (add_document s ttl cnt)) =
        Some (length ws)"
      by (simp add: len tok)
  }
  {
    assume "\<forall>c \<in> set cnt. is_space c"
    then have tok: "tokenize cnt = []"
      by (rule tokenize_whitespace)
    show "map_of (doc_word_counts (snd (add_document s ttl cnt))) (fst (add_document s ttl cnt)) =
        Some 0"
      by (simp add: len tok)
    show "inverted_index (snd (add_document s ttl cnt)) = inverted_index s"
      by (rule add_document_empty(1) [OF tok])
    show "word_doc_frequency (snd (add_document s ttl cnt)) = word_doc_frequency s"
      by (rule add_document_empty(2) [OF tok])
  }
qed

theorem add_document_sets_length_witness:
  "tokenize ''The  cat'' = [''the'', ''cat''] \<and>
   map_of (doc_word_counts (snd (add_document init ''A'' ''The  cat'')))
     (fst (add_document init ''A'' ''The  cat'')) = Some 2 \<and>
   map_of (doc_word_counts (snd (add_document init ''B'' ''  '')))
     (fst (add_document init ''B'' ''  '')) = Some 0 \<and>
   inverted_index (snd (add_document init ''B'' ''  '')) = inverted_index init"
proof -
  have h1: "length ['''', ''  ''] = length [''The'', ''cat''] \<and>
      (\<forall>sp \<in> set ['''', ''  '']. \<forall>c \<in> set sp. is_space c) \<and>
      (\<forall>sp \<in> set (tl ['''', ''  '']). sp \<noteq> []) \<and>
      (\<forall>c \<in> set ''''. is_space c) \<and>
      (\<forall>w \<in> set [''The'', ''cat'']. w \<noteq> [] \<and> (\<forall>c \<in> set w. is_alnum c)) \<and>
      ''The  cat'' = concat (map2 (@) ['''', ''  ''] [''The'', ''cat'']) @ ''''"
    by code_simp
  have h2: "\<forall>c \<in> set ''  ''. is_space c"
    by code_simp
  have l: "lower ''The'' = ''the'' \<and> lower ''cat'' = ''cat''"
    by code_simp
  have a: "tokenize ''The  cat'' = map lower [''The'', ''cat''] \<and>
      map_of (doc_word_counts (snd (add_document init ''A'' ''The  cat'')))
        (fst (add_document init ''A'' ''The  cat'')) = Some (length [''The'', ''cat''])"
    using h1
      add_document_sets_length
        [of init "''A''" "''The  cat''" "['''', ''  '']" "[''The'', ''cat'']" "''''"]
    by blast
  have b: "map_of (doc_word_counts (snd (add_document init ''B'' ''  '')))
        (fst (add_document init ''B'' ''  '')) = Some 0 \<and>
      inverted_index (snd (add_document init ''B'' ''  '')) = inverted_index init"
    using h2 add_document_sets_length [of init "''B''" "''  ''" "[]" "[]" "''''"]
    by blast
  show ?thesis
    using a b l by simp
qed

section \<open>The invariant of the engine\<close>

lemma engine_inv_fresh:
  "engine_inv s \<Longrightarrow> next_doc_id s \<notin> fst ` set (dict_get (inverted_index s) w [])"
proof
  assume inv: "engine_inv s" and "next_doc_id s \<in> fst ` set (dict_get (inverted_index s) w [])"
  then obtain ps where "(next_doc_id s, ps) \<in> set (dict_get (inverted_index s) w [])"
    by auto
  with inv obtain doc where "map_of (documents s) (next_doc_id s) = Some doc"
    unfolding engine_inv_def by blast
  then have "(next_doc_id s, doc) \<in> set (documents s)"
    by (rule map_of_SomeD)
  then have "next_doc_id s \<in> fst ` set (documents s)"
    by force
  with inv show False
    unfolding engine_inv_def by auto
qed

lemma engine_inv_init: "engine_inv init"
  by (simp add: engine_inv_def init_def dict_get_def)

lemma engine_inv_add_document:
  assumes inv: "engine_inv s"
  shows "engine_inv (snd (add_document s ttl cnt))"
proof -
  obtain i s' where add: "add_document s ttl cnt = (i, s')"
    by (cases "add_document s ttl cnt")
  have fresh: "\<forall>w. next_doc_id s \<notin> fst ` set (dict_get (inverted_index s) w [])"
    using inv by (simp add: engine_inv_fresh)
  note eff = add_document_effect [OF fresh add]
  let ?n = "next_doc_id s"
  have a: "dict_get (word_doc_frequency s') w 0 = length (dict_get (inverted_index s') w [])" for w
  proof -
    have "length (dict_get (inverted_index s') w []) =
        length (map fst (dict_get (inverted_index s') w []))"
      by simp
    also have "\<dots> = length (dict_get (inverted_index s) w []) +
        (if w \<in> set (tokenize cnt) then 1 else 0)"
      by (simp only: eff(6)) simp
    finally show ?thesis
      using inv by (simp add: eff(5) engine_inv_def)
  qed
  have b: "distinct (map fst (dict_get (inverted_index s') w []))" for w
    using inv fresh by (simp add: eff(6) engine_inv_def)
  have c: "(\<exists>doc. map_of (documents s') d = Some doc \<and> w \<in> set (tokenize (content doc))) \<and>
        (\<exists>n. map_of (doc_word_counts s') d = Some n \<and> length ps \<le> n)"
    if mem: "(d, ps) \<in> set (dict_get (inverted_index s') w [])" for w d ps
  proof (cases "d = ?n")
    case True
    have "d \<in> set (map fst (dict_get (inverted_index s') w []))"
      using mem by force
    then have "w \<in> set (tokenize cnt)"
      using fresh True by (auto simp: eff(6) split: if_splits)
    moreover have "length ps \<le> length (tokenize cnt)"
      using eff(7) [OF mem] True by simp
    ultimately show ?thesis
      using True by (simp add: eff(3,4) map_of_dict_setitem)
  next
    case False
    then have "(d, ps) \<in> set (dict_get (inverted_index s) w [])"
      using eff(7) [OF mem] by simp
    then show ?thesis
      using inv False unfolding engine_inv_def
      by (simp add: eff(3,4) map_of_dict_setitem)
  qed
  have d: "\<forall>d \<in> fst ` set (documents s'). d < next_doc_id s'"
  proof
    fix d assume "d \<in> fst ` set (documents s')"
    then have "d \<in> dom (map_of (documents s'))"
      by (simp add: dom_map_of_conv_image_fst)
    then have "d = ?n \<or> d \<in> fst ` set (documents s)"
      by (auto simp: eff(3) map_of_dict_setitem dom_map_of_conv_image_fst split: if_splits)
    then show "d < next_doc_id s'"
      using inv by (auto simp: eff(2) engine_inv_def)
  qed
  show ?thesis
    using a b c d by (simp add: add engine_inv_def)
qed

lemma load_documents_snoc:
  "load_documents s (docs @ [(ttl, cnt)]) = snd (add_document (load_documents s docs) ttl cnt)"
  by (induction s docs rule: load_documents.induct) simp_all

lemma engine_inv_load_documents: "engine_inv s \<Longrightarrow> engine_inv (load_documents s docs)"
  by (induction s docs rule: load_documents.induct) (simp_all add: engine_inv_add_document)

lemma engine_inv_loaded: "engine_inv (load_documents init docs)"
  by (simp add: engine_inv_load_documents engine_inv_init)

text \<open>
  C4. After every sequence of \<open>add_document\<close> calls on a fresh engine, the document
  frequency of every term is the number of postings stored for it, and no two of these
  postings are of the same document. One more
  \<open>add_document\<close> adds one to the frequency of a term exactly when the term is a token
  of the new content, and then appends exactly one posting, that of the new document, to
  the postings of the term.
\<close>

theorem document_frequency_counts_postings:
  "dict_get (word_doc_frequency (load_documents init docs)) t 0 =
     length (dict_get (inverted_index (load_documents init docs)) t []) \<and>
   distinct (map fst (dict_get (inverted_index (load_documents init docs)) t [])) \<and>
   dict_get (word_doc_frequency (snd (add_document (load_documents init docs) ttl cnt))) t 0 =
     dict_get (word_doc_frequency (load_documents init docs)) t 0 +
       (if t \<in> set (tokenize cnt) then 1 else 0) \<and>
   map fst (dict_get (inverted_index (snd (add_document (load_documents init docs) ttl cnt))) t []) =
     map fst (dict_get (inverted_index (load_documents init docs)) t []) @
       (if t \<in> set (tokenize cnt) then [next_doc_id (load_documents init docs)] else [])"
proof -
  let ?s = "load_documents init docs"
  have inv: "engine_inv ?s"
    by (rule engine_inv_loaded)
  have fresh: "\<forall>w. next_doc_id ?s \<notin> fst ` set (dict_get (inverted_index ?s) w [])"
    using inv by (simp add: engine_inv_fresh)
  have add: "add_document ?s ttl cnt = (fst (add_document ?s ttl cnt), snd (add_document ?s ttl cnt))"
    by simp
  show ?thesis
    using inv add_document_effect(5,6) [OF fresh add, of t]
    by (simp add: engine_inv_def)
qed

theorem document_frequency_counts_postings_witness:
  "dict_get (word_doc_frequency
     (load_documents init [(''A'', ''the cat the''), (''B'', ''dog'')])) ''the'' 0 = 1 \<and>
   length (dict_get (inverted_index
     (load_documents init [(''A'', ''the cat the''), (''B'', ''dog'')])) ''the'' []) = 1 \<and>
   dict_get (word_doc_frequency
     (snd (add_document (load_documents init [(''A'', ''the cat the''), (''B'', ''dog'')])
        ''C'' ''the the''))) ''the'' 0 = 2 \<and>
   map fst (dict_get (inverted_index
     (snd (add_document (load_documents init [(''A'', ''the cat the''), (''B'', ''dog'')])
        ''C'' ''the the''))) ''the'' []) = [1, 3]"
proof -
  have e: "dict_get (word_doc_frequency
        (load_documents init [(''A'', ''the cat the''), (''B'', ''dog'')])) ''the'' 0 = 1 \<and>
      map fst (dict_get (inverted_index
        (load_documents init [(''A'', ''the cat the''), (''B'', ''dog'')])) ''the'' []) = [1] \<and>
      next_doc_id (load_documents init [(''A'', ''the cat the''), (''B'', ''dog'')]) = 3 \<and>
      tokenize ''the the'' = [''the'', ''the'']"
    by code_simp
  show ?thesis
    using e document_frequency_counts_postings
      [of "[(''A'', ''the cat the''), (''B'', ''dog'')]" "''the''" "''C''" "''the the''"]
    by simp
qed

section \<open>The document store\<close>

lemma load_documents_listing:
  assumes "engine_inv s"
  shows "documents (load_documents s docs) =
           documents s @
           map (\<lambda>(i, ttl, cnt). (i, \<lparr>id' = i, title = ttl, content = cnt\<rparr>))
             (zip [next_doc_id s..next_doc_id s + int (length docs) - 1] docs) \<and>
         next_doc_id (load_documents s docs) = next_doc_id s + int (length docs)"
  using assms
proof (induction s docs rule: load_documents.induct)
  case (1 s)
  show ?case by simp
next
  case (2 s ttl cnt docs)
  let ?n = "next_doc_id s"
  obtain i s1 where add: "add_document s ttl cnt = (i, s1)"
    by (cases "add_document s ttl cnt")
  have fresh: "\<forall>w. ?n \<notin> fst ` set (dict_get (inverted_index s) w [])"
    using "2.prems" by (simp add: engine_inv_fresh)
  note eff = add_document_effect [OF fresh add]
  have inv1: "engine_inv s1"
    using engine_inv_add_document [OF "2.prems", of ttl cnt] add by simp
  have "?n \<notin> fst ` set (documents s)"
    using "2.prems" unfolding engine_inv_def by auto
  then have docs1: "documents s1 = documents s @ [(?n, \<lparr>id' = ?n, title = ttl, content = cnt\<rparr>)]"
    by (simp add: eff(3) dict_setitem_absent)
  have upt: "[?n..?n + int (length ((ttl, cnt) # docs)) - 1] =
      ?n # [?n + 1..?n + 1 + int (length docs) - 1]"
    by (simp add: upto_rec1 [of ?n])
  have "documents (load_documents s1 docs) =
      documents s1 @
      map (\<lambda>(i, ttl, cnt). (i, \<lparr>id' = i, title = ttl, content = cnt\<rparr>))
        (zip [next_doc_id s1..next_doc_id s1 + int (length docs) - 1] docs) \<and>
      next_doc_id (load_documents s1 docs) = next_doc_id s1 + int (length docs)"
    using "2.IH" inv1 add by simp
  then show ?case
    using add by (simp only: upt) (simp add: docs1 eff(2))
qed

lemma load_documents_init_listing:
  "documents (load_documents init docs) =
     map (\<lambda>(i, ttl, cnt). (i, \<lparr>id' = i, title = ttl, content = cnt\<rparr>))
       (zip [1..int (length docs)] docs)"
  "next_doc_id (load_documents init docs) = int (length docs) + 1"
  using load_documents_listing [OF engine_inv_init, of docs]
  by (simp_all add: init_def)

lemma get_all_documents_loaded:
  "fst (get_all_documents (load_documents init docs)) =
     map (\<lambda>(i, ttl, cnt). \<lparr>id' = i, title = ttl, content = cnt\<rparr>)
       (zip [1..int (length docs)] docs)"
  by (simp add: get_all_documents_def load_documents_init_listing(1) case_prod_beta)

text \<open>
  C9. The \<open>k\<close>-th \<open>add_document\<close> on a fresh engine returns the id \<open>k\<close>. The list of all
  documents holds, in ascending order of the ids \<open>1, ..., n\<close>, each document with the
  title and content it was added with; one more \<open>add_document\<close> leaves that list as it
  is and appends the new document under the next id, so no id is given twice and no
  record is replaced.
\<close>

theorem document_ids_sequential:
  "fst (add_document (load_documents init docs) ttl cnt) = int (length docs) + 1 \<and>
   fst (get_all_documents (load_documents init docs)) =
     map (\<lambda>(i, ttl, cnt). \<lparr>id' = i, title = ttl, content = cnt\<rparr>)
       (zip [1..int (length docs)] docs) \<and>
   fst (get_all_documents (snd (add_document (load_documents init docs) ttl cnt))) =
     fst (get_all_documents (load_documents init docs)) @
       [\<lparr>id' = int (length docs) + 1, title = ttl, content = cnt\<rparr>] \<and>
   map id' (fst (get_all_documents (load_documents init docs))) = [1..int (length docs)] \<and>
   sorted_wrt (<) (map id' (fst (get_all_documents (load_documents init docs))))"
proof -
  let ?n = "int (length docs)"
  let ?f = "\<lambda>(i, ttl, cnt). \<lparr>id' = i, title = ttl, content = cnt\<rparr>"
  have ids: "map id' (map ?f (zip [1..?n] docs)) = [1..?n]"
  proof -
    have "map id' (map ?f (zip [1..?n] docs)) = map fst (zip [1..?n] docs)"
      by (simp add: comp_def case_prod_beta)
    also have "\<dots> = [1..?n]"
      by (simp add: map_fst_zip)
    finally show ?thesis .
  qed
  have more: "snd (add_document (load_documents init docs) ttl cnt) =
      load_documents init (docs @ [(ttl, cnt)])"
    by (simp add: load_documents_snoc)
  have upt: "[1..int (length (docs @ [(ttl, cnt)]))] = [1..?n] @ [?n + 1]"
    using upto_rec2 [of 1 "?n + 1"] by (simp add: add.commute)
  have app: "map ?f (zip [1..int (length (docs @ [(ttl, cnt)]))] (docs @ [(ttl, cnt)])) =
      map ?f (zip [1..?n] docs) @ [\<lparr>id' = ?n + 1, title = ttl, content = cnt\<rparr>]"
    by (simp only: upt) simp
  show ?thesis
    by (simp only: more get_all_documents_loaded ids app fst_add_document
        load_documents_init_listing(2) sorted_wrt_upto simp_thms)
qed

theorem document_ids_sequential_witness:
  "fst (add_document (load_documents init [(''A'', ''x''), (''B'', ''y'')]) ''C'' ''z'') = 3 \<and>
   fst (get_all_documents (load_documents init [(''A'', ''x''), (''B'', ''y'')])) =
     [\<lparr>id' = 1, title = ''A'', content = ''x''\<rparr>, \<lparr>id' = 2, title = ''B'', content = ''y''\<rparr>] \<and>
   fst (get_all_documents
     (snd (add_document (load_documents init [(''A'', ''x''), (''B'', ''y'')]) ''C'' ''z''))) =
     [\<lparr>id' = 1, title = ''A'', content = ''x''\<rparr>, \<lparr>id' = 2, title = ''B'', content = ''y''\<rparr>,
      \<lparr>id' = 3, title = ''C'', content = ''z''\<rparr>]"
proof -
  have upt: "[1..2] = [1, 2 :: int]"
    by code_simp
  show ?thesis
    using document_ids_sequential [of "[(''A'', ''x''), (''B'', ''y'')]" "''C''" "''z''"]
    by (simp add: upt)
qed

section \<open>Term frequency and inverse document frequency\<close>

lemma fst_calculate_tf:
  "fst (calculate_tf s word doc_id) =
     (if dict_get (doc_word_counts s) doc_id 1 > 0
      then real (find_word_count (dict_get (inverted_index s) word []) doc_id) /
           real (dict_get (doc_word_counts s) doc_id 1)
      else 0)"
  by (simp add: calculate_tf_def defaultdict_getitem_present dict_get_absent Let_def)

lemma calculate_tf_nonneg: "0 \<le> fst (calculate_tf s word doc_id)"
  by (simp add: fst_calculate_tf)

lemma find_word_count_cases:
  "find_word_count es d = 0 \<or> (\<exists>ps. (d, ps) \<in> set es \<and> find_word_count es d = length ps)"
  by (induction es d rule: find_word_count.induct) auto

lemma posting_length:
  assumes "engine_inv s" and "(d, ps) \<in> set (dict_get (inverted_index s) t [])"
  shows "length ps \<le> dict_get (doc_word_counts s) d 0"
    and "length ps \<le> dict_get (doc_word_counts s) d 1"
proof -
  from assms obtain n where "map_of (doc_word_counts s) d = Some n" "length ps \<le> n"
    unfolding engine_inv_def by blast
  then show "length ps \<le> dict_get (doc_word_counts s) d 0"
    and "length ps \<le> dict_get (doc_word_counts s) d 1"
    by (simp_all add: dict_get_def)
qed

lemma word_count_le_length:
  assumes "engine_inv s"
  shows "find_word_count (dict_get (inverted_index s) t []) d \<le> dict_get (doc_word_counts s) d 0"
    and "find_word_count (dict_get (inverted_index s) t []) d \<le> dict_get (doc_word_counts s) d 1"
proof -
  let ?es = "dict_get (inverted_index s) t []"
  consider "find_word_count ?es d = 0"
    | ps where "(d, ps) \<in> set ?es" "find_word_count ?es d = length ps"
    using find_word_count_cases [of ?es d] by auto
  then have "find_word_count ?es d \<le> dict_get (doc_word_counts s) d 0 \<and>
    find_word_count ?es d \<le> dict_get (doc_word_counts s) d 1"
  proof cases
    case 1
    then show ?thesis by simp
  next
    case 2
    then show ?thesis
      using posting_length [OF assms, of d ps t] by simp
  qed
  then show "find_word_count ?es d \<le> dict_get (doc_word_counts s) d 0"
    and "find_word_count ?es d \<le> dict_get (doc_word_counts s) d 1"
    by simp_all
qed

lemma calculate_tf_le_one:
  assumes "engine_inv s"
  shows "fst (calculate_tf s t d) \<le> 1"
  using word_count_le_length(2) [OF assms, of t d]
  by (simp add: fst_calculate_tf)

text \<open>
  C5. After every sequence of \<open>add_document\<close> calls on a fresh engine, the term
  frequency of every term in every document id, ingested or not, of length zero or not,
  lies between 0 and 1, and the number of positions in a posting of the term for the
  document is at most the recorded length of the document.
\<close>

theorem term_frequency_in_unit_interval:
  "0 \<le> fst (calculate_tf (load_documents init docs) t d) \<and>
   fst (calculate_tf (load_documents init docs) t d) \<le> 1 \<and>
   find_word_count (dict_get (inverted_index (load_documents init docs)) t []) d \<le>
     dict_get (doc_word_counts (load_documents init docs)) d 0 \<and>
   (\<forall>ps. (d, ps) \<in> set (dict_get (inverted_index (load_documents init docs)) t []) \<longrightarrow>
      length ps \<le> dict_get (doc_word_counts (load_documents init docs)) d 0)"
  using engine_inv_loaded [of docs]
  by (simp add: calculate_tf_nonneg calculate_tf_le_one word_count_le_length(1) posting_length(1))

theorem term_frequency_in_unit_interval_witness:
  "fst (calculate_tf (load_documents init [(''A'', ''the cat the''), (''B'', '''')]) ''the'' 1) = 2 / 3 \<and>
   fst (calculate_tf (load_documents init [(''A'', ''the cat the''), (''B'', '''')]) ''the'' 1) \<le> 1 \<and>
   fst (calculate_tf (load_documents init [(''A'', ''the cat the''), (''B'', '''')]) ''the'' 2) = 0 \<and>
   fst (calculate_tf (load_documents init [(''A'', ''the cat the''), (''B'', '''')]) ''the'' 7) = 0 \<and>
   (1, [0, 2]) \<in> set (dict_get (inverted_index
      (load_documents init [(''A'', ''the cat the''), (''B'', '''')])) ''the'' []) \<and>
   length [0, 2 :: nat] \<le>
     dict_get (doc_word_counts (load_documents init [(''A'', ''the cat the''), (''B'', '''')])) 1 0"
proof -
  let ?s = "load_documents init [(''A'', ''the cat the''), (''B'', '''')]"
  have e: "find_word_count (dict_get (inverted_index ?s) ''the'' []) 1 = 2 \<and>
      dict_get (doc_word_counts ?s) 1 1 = 3 \<and>
      dict_get (doc_word_counts ?s) 2 1 = 0 \<and>
      find_word_count (dict_get (inverted_index ?s) ''the'' []) 7 = 0 \<and>
      dict_get (doc_word_counts ?s) 7 1 = 1"
    by code_simp
  have m: "(1, [0, 2]) \<in> set (dict_get (inverted_index ?s) ''the'' [])"
    by code_simp
  have v: "fst (calculate_tf ?s ''the'' 1) = 2 / 3 \<and> fst (calculate_tf ?s ''the'' 2) = 0 \<and>
      fst (calculate_tf ?s ''the'' 7) = 0"
    by (simp only: fst_calculate_tf e) simp
  note t = term_frequency_in_unit_interval
    [of "[(''A'', ''the cat the''), (''B'', '''')]" "''the''" 1]
  have "length [0, 2 :: nat] \<le> dict_get (doc_word_counts ?s) 1 0"
    using t m by blast
  then show ?thesis
    using t m v by blast
qed

lemma calculate_idf_antimono:
  assumes "length (documents s1) = length (documents s2)"
    and "1 \<le> dict_get (word_doc_frequency s1) t 0"
    and "dict_get (word_doc_frequency s1) t 0 \<le> dict_get (word_doc_frequency s2) t 0"
  shows "calculate_idf s2 t \<le> calculate_idf s1 t"
proof (cases "length (documents s2) = 0")
  case True
  then show ?thesis
    using assms(1) by (simp add: calculate_idf_def)
next
  case False
  let ?N = "real (length (documents s2))"
  let ?a = "real (dict_get (word_doc_frequency s1) t 0)"
  let ?b = "real (dict_get (word_doc_frequency s2) t 0)"
  have pos: "0 < ?N" "0 < ?a" "0 < ?b"
    using False assms(2,3) by simp_all
  have "?N / ?b \<le> ?N / ?a"
    using pos assms(3) by (simp add: frac_le)
  moreover have "0 < ?N / ?b"
    using pos by simp
  ultimately have "ln (?N / ?b) \<le> ln (?N / ?a)"
    by (simp only: ln_le_cancel_iff pos divide_pos_pos)
  then show ?thesis
    using False assms by (simp add: calculate_idf_def Let_def)
qed

lemma docs_aa:
  "length (documents (load_documents init [(''A'', ''a''), (''B'', ''a'')])) = 2 \<and>
   dict_get (word_doc_frequency (load_documents init [(''A'', ''a''), (''B'', ''a'')])) ''b'' 0 = 0 \<and>
   dict_get (word_doc_frequency (load_documents init [(''A'', ''a''), (''B'', ''a'')])) ''a'' 0 = 2"
  by code_simp

lemma docs_ab:
  "length (documents (load_documents init [(''A'', ''a''), (''B'', ''b'')])) = 2 \<and>
   dict_get (word_doc_frequency (load_documents init [(''A'', ''a''), (''B'', ''b'')])) ''b'' 0 = 1 \<and>
   dict_get (word_doc_frequency (load_documents init [(''A'', ''a''), (''B'', ''b'')])) ''a'' 0 = 1"
  by code_simp

text \<open>
  C3, as stated, fails: with two documents, a term in no document has inverse document
  frequency 0 (by the guard on a zero document frequency), and a term in one of them has
  \<open>ln 2\<close>, so the value rises when the document frequency goes from 0 to 1.
\<close>

theorem idf_rises_from_zero:
  "length (documents (load_documents init [(''A'', ''a''), (''B'', ''a'')])) =
     length (documents (load_documents init [(''A'', ''a''), (''B'', ''b'')])) \<and>
   dict_get (word_doc_frequency (load_documents init [(''A'', ''a''), (''B'', ''a'')])) ''b'' 0 <
     dict_get (word_doc_frequency (load_documents init [(''A'', ''a''), (''B'', ''b'')])) ''b'' 0 \<and>
   calculate_idf (load_documents init [(''A'', ''a''), (''B'', ''a'')]) ''b'' = 0 \<and>
   calculate_idf (load_documents init [(''A'', ''a''), (''B'', ''b'')]) ''b'' = ln 2 \<and>
   \<not> calculate_idf (load_documents init [(''A'', ''a''), (''B'', ''b'')]) ''b'' \<le>
       calculate_idf (load_documents init [(''A'', ''a''), (''B'', ''a'')]) ''b''"
  using docs_aa docs_ab by (simp add: calculate_idf_def Let_def)

text \<open>
  C3, amended. For a fixed number of documents, the inverse document frequency of a term
  does not increase when its document frequency increases from a value of at least 1.
  It is 0 when the term is in every document, and it is 0 when the term is in no
  document, also when there is no document at all.
\<close>

theorem idf_monotone_from_one:
  "(length (documents s1) = length (documents s2) \<and>
    1 \<le> dict_get (word_doc_frequency s1) t 0 \<and>
    dict_get (word_doc_frequency s1) t 0 \<le> dict_get (word_doc_frequency s2) t 0 \<longrightarrow>
      calculate_idf s2 t \<le> calculate_idf s1 t) \<and>
   (dict_get (word_doc_frequency s) t 0 = length (documents s) \<longrightarrow> calculate_idf s t = 0) \<and>
   (dict_get (word_doc_frequency s) t 0 = 0 \<longrightarrow> calculate_idf s t = 0) \<and>
   (documents s = [] \<longrightarrow> calculate_idf s t = 0)"
  by (auto simp: calculate_idf_antimono) (simp_all add: calculate_idf_def Let_def)

theorem idf_monotone_from_one_witness:
  "calculate_idf (load_documents init [(''A'', ''a''), (''B'', ''a'')]) ''a'' \<le>
     calculate_idf (load_documents init [(''A'', ''a''), (''B'', ''b'')]) ''a'' \<and>
   calculate_idf (load_documents init [(''A'', ''a''), (''B'', ''a'')]) ''a'' = 0 \<and>
   calculate_idf (load_documents init [(''A'', ''a''), (''B'', ''a'')]) ''b'' = 0 \<and>
   calculate_idf init ''a'' = 0"
proof -
  let ?s1 = "load_documents init [(''A'', ''a''), (''B'', ''b'')]"
  let ?s2 = "load_documents init [(''A'', ''a''), (''B'', ''a'')]"
  have h1: "length (documents ?s1) = length (documents ?s2) \<and>
      1 \<le> dict_get (word_doc_frequency ?s1) ''a'' 0 \<and>
      dict_get (word_doc_frequency ?s1) ''a'' 0 \<le> dict_get (word_doc_frequency ?s2) ''a'' 0"
    using docs_aa docs_ab by simp
  have h2: "dict_get (word_doc_frequency ?s2) ''a'' 0 = length (documents ?s2)"
    using docs_aa by simp
  have h3: "dict_get (word_doc_frequency ?s2) ''b'' 0 = 0"
    using docs_aa by simp
  have h4: "documents init = []"
    by (simp add: init_def)
  have a: "calculate_idf ?s2 ''a'' \<le> calculate_idf ?s1 ''a'' \<and> calculate_idf ?s2 ''a'' = 0"
    using h1 h2 idf_monotone_from_one [of ?s1 ?s2 "''a''" ?s2] by blast
  have b: "calculate_idf ?s2 ''b'' = 0"
    using h3 idf_monotone_from_one [of ?s1 ?s2 "''b''" ?s2] by blast
  have c: "calculate_idf init ''a'' = 0"
    using h4 idf_monotone_from_one [of ?s1 ?s2 "''a''" init] by blast
  show ?thesis
    using a b c by blast
qed

section \<open>What a search returns\<close>

lemma postings_le_documents:
  assumes "engine_inv s"
  shows "length (dict_get (inverted_index s) t []) \<le> length (documents s)"
proof -
  let ?ids = "map fst (dict_get (inverted_index s) t [])"
  have dist: "distinct ?ids"
    using assms by (simp add: engine_inv_def)
  have sub: "set ?ids \<subseteq> set (map fst (documents s))"
  proof
    fix d assume "d \<in> set ?ids"
    then obtain ps where "(d, ps) \<in> set (dict_get (inverted_index s) t [])"
      by auto
    with assms obtain doc where "map_of (documents s) d = Some doc"
      unfolding engine_inv_def by blast
    then have "(d, doc) \<in> set (documents s)"
      by (rule map_of_SomeD)
    then show "d \<in> set (map fst (documents s))"
      by force
  qed
  have "length ?ids = card (set ?ids)"
    using distinct_card [OF dist] by simp
  also have "\<dots> \<le> card (set (map fst (documents s)))"
    using sub by (simp add: card_mono)
  also have "\<dots> \<le> length (map fst (documents s))"
    by (rule card_length)
  finally show ?thesis by simp
qed

lemma doc_frequency_le_documents:
  assumes "engine_inv s"
  shows "dict_get (word_doc_frequency s) t 0 \<le> length (documents s)"
  using postings_le_documents [OF assms, of t] assms
  by (simp add: engine_inv_def)

lemma calculate_idf_nonneg:
  assumes "engine_inv s"
  shows "0 \<le> calculate_idf s t"
proof -
  let ?N = "length (documents s)" and ?df = "dict_get (word_doc_frequency s) t 0"
  have "?df \<le> ?N" by (rule doc_frequency_le_documents [OF assms])
  then have "0 < ?df \<Longrightarrow> 1 \<le> real ?N / real ?df"
    by simp
  then show ?thesis
    by (auto simp: calculate_idf_def Let_def)
qed

lemma set_foldl_set_add: "set (foldl set_add cs ds) = set cs \<union> set ds"
  by (induction ds arbitrary: cs) (auto simp: set_add_def)

lemma set_find_candidates:
  "set (fst (find_candidates s query_words cands)) =
     set cands \<union> {d. \<exists>w \<in> set query_words. d \<in> fst ` set (dict_get (inverted_index s) w [])}"
proof (induction query_words arbitrary: cands)
  case Nil
  show ?case by simp
next
  case (Cons word query_words)
  show ?case
  proof (cases "dict_contains (inverted_index s) word")
    case True
    then show ?thesis
      by (auto simp: defaultdict_getitem_present Cons.IH set_foldl_set_add)
  next
    case False
    then have "dict_get (inverted_index s) word [] = []"
      by (rule dict_get_absent)
    with False show ?thesis
      by (auto simp: Cons.IH)
  qed
qed

lemma fst_calculate_tfidf:
  "fst (calculate_tfidf s w d) = fst (calculate_tf s w d) * calculate_idf s w"
  by (simp add: calculate_tfidf_def case_prod_beta calculate_tf_state)

lemma fst_sum_tfidf:
  "fst (sum_tfidf s query_words doc_id sc) =
     sc + sum_list (map (\<lambda>w. fst (calculate_tfidf s w doc_id)) query_words)"
  by (induction query_words arbitrary: sc)
     (simp_all add: case_prod_beta calculate_tfidf_state)

lemma sum_tfidf_nonneg:
  assumes "engine_inv s"
  shows "0 \<le> fst (sum_tfidf s query_words doc_id 0)"
proof -
  have "0 \<le> fst (calculate_tfidf s w doc_id)" for w
    using calculate_tf_nonneg [of s w doc_id] calculate_idf_nonneg [OF assms, of w]
    by (simp add: fst_calculate_tfidf)
  then show ?thesis
    by (auto simp: fst_sum_tfidf intro!: sum_list_nonneg)
qed

lemma score_candidates_entries:
  "(d, sc) \<in> set (fst (score_candidates s query_words cands doc_scores)) \<Longrightarrow>
     (d, sc) \<in> set doc_scores \<or> (d \<in> set cands \<and> sc = fst (sum_tfidf s query_words d 0))"
proof (induction cands arbitrary: doc_scores)
  case Nil
  then show ?case by simp
next
  case (Cons doc_id cands)
  let ?x = "fst (sum_tfidf s query_words doc_id 0)"
  from Cons.prems have
    "(d, sc) \<in> set (fst (score_candidates s query_words cands (dict_setitem doc_scores doc_id ?x)))"
    by (simp add: case_prod_beta sum_tfidf_state)
  then have "(d, sc) \<in> set (dict_setitem doc_scores doc_id ?x) \<or>
      (d \<in> set cands \<and> sc = fst (sum_tfidf s query_words d 0))"
    by (rule Cons.IH)
  then show ?case
    using set_dict_setitem [of doc_scores doc_id ?x] by auto
qed

lemma build_results_Inr:
  "build_results s top_docs = Inr rs \<Longrightarrow>
     map id' rs = map fst top_docs \<and> map score rs = map (\<lambda>x. py_round (snd x) 4) top_docs \<and>
     (\<forall>r \<in> set rs. \<exists>doc. map_of (documents s) (id' r) = Some doc \<and>
        title r = title doc \<and> content r = content doc)"
proof (induction s top_docs arbitrary: rs rule: build_results.induct)
  case (1 s)
  then show ?case by simp
next
  case (2 s doc_id sc top_docs)
  from "2.prems" obtain doc rest where
    doc: "dict_getitem (documents s) doc_id = Inr doc" and
    rest: "build_results s top_docs = Inr rest" and
    rs: "rs = \<lparr>id' = doc_id, title = title doc, content = content doc,
                snippet = make_snippet (content doc), score = py_round sc 4\<rparr> # rest"
    by (auto split: sum.splits)
  have "map_of (documents s) doc_id = Some doc"
    using doc by (simp add: dict_getitem_def split: option.splits)
  then show ?case
    using "2.IH" [OF doc rest] rs by simp
qed

lemma build_results_succeeds:
  "\<forall>x \<in> set top_docs. fst x \<in> fst ` set (documents s) \<Longrightarrow>
     \<exists>rs. build_results s top_docs = Inr rs"
proof (induction s top_docs rule: build_results.induct)
  case (1 s)
  show ?case by simp
next
  case (2 s doc_id sc top_docs)
  have "doc_id \<in> fst ` set (documents s)"
    using "2.prems" by simp
  then obtain doc where doc: "map_of (documents s) doc_id = Some doc"
    by (metis domD dom_map_of_conv_image_fst)
  then have get: "dict_getitem (documents s) doc_id = Inr doc"
    by (simp add: dict_getitem_def)
  obtain rest where "build_results s top_docs = Inr rest"
    using "2.IH" [OF get] "2.prems" by auto
  then show ?case
    using get by simp
qed

lemma fst_search:
  "fst (search s query top_k) =
     (if tokenize query = [] \<or> fst (find_candidates s (tokenize query) []) = [] then Inr []
      else build_results s
             (slice_to (sorted_reverse (fst (score_candidates s (tokenize query)
                 (fst (find_candidates s (tokenize query) [])) []))) top_k))"
  by (simp add: search_def Let_def case_prod_beta find_candidates_state score_candidates_state)

lemma sorted_reverse_descending:
  "sorted_wrt (\<lambda>a b. snd b \<le> snd a) (sorted_reverse items)"
proof -
  have "sorted (map (\<lambda>x. - snd x) (sorted_reverse items))"
    by (simp add: sorted_reverse_def)
  then show ?thesis
    by (simp add: sorted_map sorted_wrt_iff_nth_less)
qed

lemma slice_to_descending:
  "sorted_wrt (\<lambda>a b. snd b \<le> snd a) xs \<Longrightarrow> sorted_wrt (\<lambda>a b. snd b \<le> snd a) (slice_to xs k)"
  by (simp add: slice_to_def sorted_wrt_take)

lemma build_results_descending:
  assumes "build_results s top_docs = Inr rs"
    and "sorted_wrt (\<lambda>a b. snd b \<le> snd a) top_docs"
  shows "sorted_wrt (\<lambda>a b. score b \<le> score a) rs"
proof -
  have sc: "map score rs = map (\<lambda>x. py_round (snd x) 4) top_docs"
    using build_results_Inr [OF assms(1)] by simp
  have "sorted_wrt (\<lambda>a b. b \<le> a) (map (\<lambda>x. py_round (snd x) 4) top_docs)"
    using assms(2) by (simp add: sorted_wrt_map sorted_wrt_mono_rel [OF _ assms(2)] py_round_mono)
  then have "sorted_wrt (\<lambda>a b. b \<le> a) (map score rs)"
    by (simp only: sc)
  then show ?thesis
    by (simp add: sorted_wrt_map)
qed

text \<open>
  In every engine state the results, when \<open>search\<close> returns some, are in descending order of
  their rounded scores: the candidates are sorted by the unrounded score, a prefix or a
  shortened list of a sorted list is sorted, and rounding is monotone.
\<close>

lemma search_descending:
  assumes "fst (search s query top_k) = Inr rs"
  shows "sorted_wrt (\<lambda>a b. score b \<le> score a) rs"
proof (cases "tokenize query = [] \<or> fst (find_candidates s (tokenize query) []) = []")
  case True
  with assms show ?thesis by (simp add: fst_search)
next
  case False
  with assms have "build_results s
      (slice_to (sorted_reverse (fst (score_candidates s (tokenize query)
          (fst (find_candidates s (tokenize query) [])) []))) top_k) = Inr rs"
    by (simp add: fst_search)
  then show ?thesis
    by (rule build_results_descending) (intro slice_to_descending sorted_reverse_descending)
qed

text \<open>
  The documents that \<open>search\<close> turns into results: each has a posting for a query word,
  each carries the sum of its \<open>tf * idf\<close> over the query words, and for a \<open>top_k\<close> that is
  not negative there are at most \<open>top_k\<close> of them.
\<close>

lemma search_top_docs:
  "\<exists>top_docs. fst (search s query top_k) = build_results s top_docs \<and>
     (\<forall>x \<in> set top_docs.
        (\<exists>w \<in> set (tokenize query). fst x \<in> fst ` set (dict_get (inverted_index s) w [])) \<and>
        snd x = fst (sum_tfidf s (tokenize query) (fst x) 0)) \<and>
     (0 \<le> top_k \<longrightarrow> length top_docs \<le> nat top_k)"
proof (cases "tokenize query = [] \<or> fst (find_candidates s (tokenize query) []) = []")
  case True
  then have "fst (search s query top_k) = build_results s []"
    by (simp add: fst_search)
  then show ?thesis
    by (intro exI [of _ "[]"]) simp
next
  case False
  let ?cands = "fst (find_candidates s (tokenize query) [])"
  let ?scores = "fst (score_candidates s (tokenize query) ?cands [])"
  let ?top = "slice_to (sorted_reverse ?scores) top_k"
  have eq: "fst (search s query top_k) = build_results s ?top"
    using False by (simp add: fst_search)
  have mem: "(\<exists>w \<in> set (tokenize query). fst x \<in> fst ` set (dict_get (inverted_index s) w [])) \<and>
      snd x = fst (sum_tfidf s (tokenize query) (fst x) 0)" if "x \<in> set ?top" for x
  proof -
    have "x \<in> set ?scores"
      using that set_slice_to [of "sorted_reverse ?scores" top_k]
      by (auto simp: sorted_reverse_def)
    then have "(fst x, snd x) \<in> set ?scores"
      by simp
    then have "fst x \<in> set ?cands \<and> snd x = fst (sum_tfidf s (tokenize query) (fst x) 0)"
      using score_candidates_entries [of "fst x" "snd x" s "tokenize query" ?cands "[]"] by simp
    then show ?thesis
      by (simp add: set_find_candidates)
  qed
  show ?thesis
    using eq mem length_slice_to [of top_k "sorted_reverse ?scores"]
    by (intro exI [of _ ?top]) blast
qed

lemma posting_document:
  assumes "engine_inv s" and "d \<in> fst ` set (dict_get (inverted_index s) w [])"
  shows "\<exists>doc. map_of (documents s) d = Some doc \<and> w \<in> set (tokenize (content doc))"
proof -
  from assms(2) obtain ps where "(d, ps) \<in> set (dict_get (inverted_index s) w [])"
    by auto
  with assms(1) show ?thesis
    unfolding engine_inv_def by blast
qed

lemma search_succeeds:
  assumes "engine_inv s"
  shows "\<exists>rs. fst (search s query top_k) = Inr rs"
proof -
  obtain top_docs where eq: "fst (search s query top_k) = build_results s top_docs"
    and mem: "\<forall>x \<in> set top_docs.
        (\<exists>w \<in> set (tokenize query). fst x \<in> fst ` set (dict_get (inverted_index s) w []))"
    using search_top_docs [of s query top_k] by blast
  have "\<forall>x \<in> set top_docs. fst x \<in> fst ` set (documents s)"
  proof
    fix x assume "x \<in> set top_docs"
    then obtain w where "fst x \<in> fst ` set (dict_get (inverted_index s) w [])"
      using mem by blast
    then obtain doc where "map_of (documents s) (fst x) = Some doc"
      using posting_document [OF assms] by blast
    then have "(fst x, doc) \<in> set (documents s)"
      by (rule map_of_SomeD)
    then show "fst x \<in> fst ` set (documents s)"
      by force
  qed
  then show ?thesis
    unfolding eq by (rule build_results_succeeds)
qed

lemma search_length:
  assumes "fst (search s query top_k) = Inr rs" and "0 \<le> top_k"
  shows "length rs \<le> nat top_k"
proof -
  obtain top_docs where eq: "fst (search s query top_k) = build_results s top_docs"
    and len: "length top_docs \<le> nat top_k"
    using search_top_docs [of s query top_k] assms(2) by blast
  have "length (map id' rs) = length (map fst top_docs)"
    using build_results_Inr [of s top_docs rs] eq assms(1) by simp
  then show ?thesis
    using len by simp
qed

lemma search_result_matches:
  assumes "engine_inv s" and "fst (search s query top_k) = Inr rs" and "r \<in> set rs"
  shows "\<exists>w \<in> set (tokenize query). w \<in> set (tokenize (content r))"
proof -
  obtain top_docs where eq: "fst (search s query top_k) = build_results s top_docs"
    and mem: "\<forall>x \<in> set top_docs.
        (\<exists>w \<in> set (tokenize query). fst x \<in> fst ` set (dict_get (inverted_index s) w []))"
    using search_top_docs [of s query top_k] by blast
  note res = build_results_Inr [of s top_docs rs]
  have b: "build_results s top_docs = Inr rs"
    using eq assms(2) by simp
  have "id' r \<in> set (map id' rs)"
    using assms(3) by simp
  then have "id' r \<in> fst ` set top_docs"
    using res [OF b] by simp
  then obtain w where w: "w \<in> set (tokenize query)"
    and post: "id' r \<in> fst ` set (dict_get (inverted_index s) w [])"
    using mem by force
  obtain doc where doc: "map_of (documents s) (id' r) = Some doc" "w \<in> set (tokenize (content doc))"
    using posting_document [OF assms(1) post] by blast
  obtain doc' where "map_of (documents s) (id' r) = Some doc'" "content r = content doc'"
    using res [OF b] assms(3) by blast
  with doc have "w \<in> set (tokenize (content r))"
    by simp
  with w show ?thesis by blast
qed

lemma search_scores_nonneg:
  assumes "engine_inv s" and "fst (search s query top_k) = Inr rs"
  shows "\<forall>r \<in> set rs. 0 \<le> score r"
proof -
  obtain top_docs where eq: "fst (search s query top_k) = build_results s top_docs"
    and mem: "\<forall>x \<in> set top_docs. snd x = fst (sum_tfidf s (tokenize query) (fst x) 0)"
    using search_top_docs [of s query top_k] by blast
  have b: "build_results s top_docs = Inr rs"
    using eq assms(2) by simp
  have "\<forall>x \<in> set top_docs. 0 \<le> py_round (snd x) 4"
    using mem sum_tfidf_nonneg [OF assms(1)] by (simp add: py_round_nonneg)
  then have "\<forall>y \<in> set (map (\<lambda>x. py_round (snd x) 4) top_docs). 0 \<le> y"
    by simp
  then have "\<forall>y \<in> set (map score rs). 0 \<le> y"
    using build_results_Inr [OF b] by simp
  then show ?thesis by simp
qed

subsection \<open>Three documents and the query \<open>cat\<close>\<close>

lemma three_docs:
  "load_documents init [(''A'', ''cat''), (''B'', ''cat dog''), (''C'', ''dog'')] =
     \<lparr>inverted_index = [(''cat'', [(1, [0]), (2, [0])]), (''dog'', [(2, [1]), (3, [0])])],
      documents = [(1, \<lparr>id' = 1, title = ''A'', content = ''cat''\<rparr>),
                   (2, \<lparr>id' = 2, title = ''B'', content = ''cat dog''\<rparr>),
                   (3, \<lparr>id' = 3, title = ''C'', content = ''dog''\<rparr>)],
      doc_word_counts = [(1, 1), (2, 2), (3, 1)],
      word_doc_frequency = [(''cat'', 2), (''dog'', 2)],
      next_doc_id = 4\<rparr>"
  by code_simp

lemma tokenize_cat: "tokenize ''cat'' = [''cat'']"
  by code_simp

lemma ln_three_halves: "0 < ln (3 / 2 :: real)"
  by simp

lemma search_cat_10:
  "fst (search (load_documents init [(''A'', ''cat''), (''B'', ''cat dog''), (''C'', ''dog'')])
         ''cat'' 10) =
     Inr [\<lparr>id' = 1, title = ''A'', content = ''cat'', snippet = ''cat'',
           score = py_round (ln (3 / 2)) 4\<rparr>,
          \<lparr>id' = 2, title = ''B'', content = ''cat dog'', snippet = ''cat dog'',
           score = py_round (ln (3 / 2) / 2) 4\<rparr>]"
  using ln_three_halves unfolding three_docs
  by (simp add: fst_search tokenize_cat dict_contains_def defaultdict_getitem_def
      set_add_def case_prod_beta calculate_tfidf_def calculate_tf_def calculate_idf_def
      dict_get_def sorted_reverse_def slice_to_def dict_getitem_def make_snippet_def Let_def)

subsection \<open>The claims about \<open>search\<close>\<close>

text \<open>
  C7. After every sequence of \<open>add_document\<close> calls on a fresh engine, \<open>search\<close> returns,
  for every query and every \<open>top_k\<close>, a result list in descending order of score: no
  result has a score below that of a later one, and in particular no adjacent pair has
  an earlier score strictly less than the later one.
\<close>

theorem search_sorted_descending:
  "\<exists>rs. fst (search (load_documents init docs) query top_k) = Inr rs \<and>
     sorted_wrt (\<lambda>a b. score b \<le> score a) rs \<and>
     (\<forall>i. Suc i < length rs \<longrightarrow> \<not> score (rs ! i) < score (rs ! Suc i))"
proof -
  obtain rs where rs: "fst (search (load_documents init docs) query top_k) = Inr rs"
    using search_succeeds [OF engine_inv_loaded] by blast
  have sorted: "sorted_wrt (\<lambda>a b. score b \<le> score a) rs"
    using rs by (rule search_descending)
  have "\<not> score (rs ! i) < score (rs ! Suc i)" if "Suc i < length rs" for i
    using sorted_wrt_nth_less [OF sorted, of i "Suc i"] that by simp
  with rs sorted show ?thesis
    by blast
qed

theorem search_sorted_descending_witness:
  "fst (search (load_documents init [(''A'', ''cat''), (''B'', ''cat dog''), (''C'', ''dog'')])
         ''cat'' 10) =
     Inr [\<lparr>id' = 1, title = ''A'', content = ''cat'', snippet = ''cat'',
           score = py_round (ln (3 / 2)) 4\<rparr>,
          \<lparr>id' = 2, title = ''B'', content = ''cat dog'', snippet = ''cat dog'',
           score = py_round (ln (3 / 2) / 2) 4\<rparr>] \<and>
   \<not> py_round (ln (3 / 2)) 4 < py_round (ln (3 / 2) / 2) 4"
proof -
  let ?s = "load_documents init [(''A'', ''cat''), (''B'', ''cat dog''), (''C'', ''dog'')]"
  obtain rs where rs: "fst (search ?s ''cat'' 10) = Inr rs"
    and adj: "\<forall>i. Suc i < length rs \<longrightarrow> \<not> score (rs ! i) < score (rs ! Suc i)"
    using search_sorted_descending
      [of "[(''A'', ''cat''), (''B'', ''cat dog''), (''C'', ''dog'')]" "''cat''" 10]
    by blast
  have val: "rs = [\<lparr>id' = 1, title = ''A'', content = ''cat'', snippet = ''cat'',
                    score = py_round (ln (3 / 2)) 4\<rparr>,
                   \<lparr>id' = 2, title = ''B'', content = ''cat dog'', snippet = ''cat dog'',
                    score = py_round (ln (3 / 2) / 2) 4\<rparr>]"
    using rs [unfolded search_cat_10] by simp
  have "Suc 0 < length rs \<longrightarrow> \<not> score (rs ! 0) < score (rs ! Suc 0)"
    using adj by blast
  then have "\<not> py_round (ln (3 / 2)) 4 < py_round (ln (3 / 2) / 2) 4"
    by (simp add: val)
  then show ?thesis
    by (simp only: search_cat_10 simp_thms)
qed

text \<open>
  C10. After every sequence of \<open>add_document\<close> calls on a fresh engine, the document
  frequency of every term is at most the number of documents, the inverse document
  frequency of every term is not negative, and every score in the results of a search
  is not negative.
\<close>

theorem scores_nonnegative:
  "dict_get (word_doc_frequency (load_documents init docs)) t 0 \<le>
     length (documents (load_documents init docs)) \<and>
   0 \<le> calculate_idf (load_documents init docs) t \<and>
   (\<exists>rs. fst (search (load_documents init docs) query top_k) = Inr rs \<and>
      (\<forall>r \<in> set rs. 0 \<le> score r))"
proof -
  note inv = engine_inv_loaded [of docs]
  obtain rs where rs: "fst (search (load_documents init docs) query top_k) = Inr rs"
    using search_succeeds [OF inv] by blast
  show ?thesis
    using doc_frequency_le_documents [OF inv] calculate_idf_nonneg [OF inv]
      search_scores_nonneg [OF inv rs] rs
    by blast
qed

theorem scores_nonnegative_witness:
  "dict_get (word_doc_frequency
     (load_documents init [(''A'', ''cat''), (''B'', ''cat dog''), (''C'', ''dog'')])) ''cat'' 0 = 2 \<and>
   length (documents
     (load_documents init [(''A'', ''cat''), (''B'', ''cat dog''), (''C'', ''dog'')])) = 3 \<and>
   calculate_idf
     (load_documents init [(''A'', ''cat''), (''B'', ''cat dog''), (''C'', ''dog'')]) ''cat'' =
     ln (3 / 2) \<and>
   0 \<le> ln (3 / 2 :: real) \<and>
   0 \<le> py_round (ln (3 / 2)) 4 \<and> 0 \<le> py_round (ln (3 / 2) / 2) 4"
proof -
  let ?s = "load_documents init [(''A'', ''cat''), (''B'', ''cat dog''), (''C'', ''dog'')]"
  have e: "dict_get (word_doc_frequency ?s) ''cat'' 0 = 2 \<and> length (documents ?s) = 3"
    by code_simp
  then have idf: "calculate_idf ?s ''cat'' = ln (3 / 2)"
    by (simp add: calculate_idf_def)
  note t = scores_nonnegative
    [of "[(''A'', ''cat''), (''B'', ''cat dog''), (''C'', ''dog'')]" "''cat''" "''cat''" 10]
  have nonneg: "0 \<le> ln (3 / 2 :: real)"
    using t by (simp only: idf)
  obtain rs where rs: "fst (search ?s ''cat'' 10) = Inr rs" and sc: "\<forall>r \<in> set rs. 0 \<le> score r"
    using t by blast
  have val: "rs = [\<lparr>id' = 1, title = ''A'', content = ''cat'', snippet = ''cat'',
                    score = py_round (ln (3 / 2)) 4\<rparr>,
                   \<lparr>id' = 2, title = ''B'', content = ''cat dog'', snippet = ''cat dog'',
                    score = py_round (ln (3 / 2) / 2) 4\<rparr>]"
    using rs [unfolded search_cat_10] by simp
  have "0 \<le> py_round (ln (3 / 2)) 4 \<and> 0 \<le> py_round (ln (3 / 2) / 2) 4"
    using sc by (simp add: val)
  then show ?thesis
    using e idf nonneg by blast
qed

text \<open>
  For a \<open>top_k\<close> that is not negative \<open>search\<close> returns at most \<open>top_k\<close> results, none
  for 0 (lemma \<open>search_length\<close>). After every sequence of \<open>add_document\<close> calls on a fresh
  engine the content of every result has a token that is a token of the query.
\<close>

lemma search_results_contain_query_term:
  "\<exists>rs. fst (search (load_documents init docs) query top_k) = Inr rs \<and>
     (\<forall>r \<in> set rs. \<exists>w \<in> set (tokenize query). w \<in> set (tokenize (content r)))"
proof -
  note inv = engine_inv_loaded [of docs]
  obtain rs where rs: "fst (search (load_documents init docs) query top_k) = Inr rs"
    using search_succeeds [OF inv] by blast
  then show ?thesis
    using search_result_matches [OF inv rs] by blast
qed

text \<open>
  C1 fails in the code for a negative \<open>top_k\<close>: the slice \<open>sorted_docs[:top_k]\<close> then
  drops the last \<open>-top_k\<close> candidates instead of all of them. With the three documents
  \<open>cat\<close>, \<open>cat dog\<close> and \<open>dog\<close>, the query \<open>cat\<close> has two candidates, and
  \<open>search("cat", -1)\<close> returns the first of them where the claim says it returns nothing.
\<close>

theorem search_negative_top_k:
  "fst (search (load_documents init [(''A'', ''cat''), (''B'', ''cat dog''), (''C'', ''dog'')])
         ''cat'' (- 1)) =
     Inr [\<lparr>id' = 1, title = ''A'', content = ''cat'', snippet = ''cat'',
           score = py_round (ln (3 / 2)) 4\<rparr>]"
  using ln_three_halves unfolding three_docs
  by (simp add: fst_search tokenize_cat dict_contains_def defaultdict_getitem_def
      set_add_def case_prod_beta calculate_tfidf_def calculate_tf_def calculate_idf_def
      dict_get_def sorted_reverse_def slice_to_def dict_getitem_def make_snippet_def Let_def)

end
